theory Spec2Isabelle
  imports Main "HOL-Library.Word"
begin

unbundle bit_operations_syntax

section \<open>Constants and the array model\<close>

text \<open>
  The notebook \<^verbatim>\<open>overlapping-communication-compute.ipynb\<close> drives an LZ4 compression
  kernel over bricks of eight one-megabyte blocks. Bytes (dtype \<^verbatim>\<open>u1\<close>) are 8-bit words,
  the entries of the size arrays (dtype \<^verbatim>\<open>u4\<close>) are 32-bit words, Python integers are
  \<open>int\<close>, and lengths and offsets that never go negative are \<open>nat\<close>.

  An array of shape \<^verbatim>\<open>(8, BLOCK_SIZE)\<close> is represented by its row-major contents, a flat byte
  list; \<^verbatim>\<open>reshape((BRICK_SIZE,))\<close> is then the identity on a list of \<open>BRICK_SIZE\<close> bytes
  and raises \<^verbatim>\<open>ValueError\<close> on any other. The host and device copies of a buffer are one
  list: every host write is followed by \<^verbatim>\<open>sync_to_device\<close> of the written array and every
  host read is preceded by \<^verbatim>\<open>sync_from_device\<close> of exactly the region read.
\<close>

type_synonym byte = "8 word"
type_synonym u32 = "32 word"

definition BLOCK_SIZE :: nat where
  "BLOCK_SIZE = 1024 * 1024"

definition BRICK_SIZE :: nat where
  "BRICK_SIZE = 8 * BLOCK_SIZE"

datatype py_error = ValueError | IndexError

text \<open>Python slice bounds: a negative bound counts from the end, and both are clamped.\<close>

definition py_norm :: "nat \<Rightarrow> int \<Rightarrow> nat" where
  "py_norm n i = (if i < 0 then nat (max 0 (i + int n)) else min (nat i) n)"

definition py_slice :: "'a list \<Rightarrow> int \<Rightarrow> int \<Rightarrow> 'a list" where
  "py_slice xs lo hi =
     (let l = py_norm (length xs) lo; h = py_norm (length xs) hi
      in take (h - l) (drop l xs))"

text \<open>\<^verbatim>\<open>xs[lo:hi] = v\<close> on a numpy array: the scalar is broadcast over the slice.\<close>

definition slice_fill :: "'a list \<Rightarrow> int \<Rightarrow> int \<Rightarrow> 'a \<Rightarrow> 'a list" where
  "slice_fill xs lo hi v =
     (let l = py_norm (length xs) lo; h = py_norm (length xs) hi
      in map (\<lambda>i. if l \<le> i \<and> i < h then v else xs ! i) [0..<length xs])"

text \<open>\<^verbatim>\<open>xs[i] = v\<close>: a negative index counts from the end, out of range raises.\<close>

definition index_set :: "'a list \<Rightarrow> int \<Rightarrow> 'a \<Rightarrow> py_error + 'a list" where
  "index_set xs i v =
     (let n = int (length xs); j = (if i < 0 then i + n else i)
      in if 0 \<le> j \<and> j < n then Inr (xs[nat j := v]) else Inl IndexError)"

section \<open>Preparing a brick: \<^verbatim>\<open>write_uncompressed\<close>\<close>

text \<open>
  The result is the updated input buffer, the updated size array and the returned pair
  \<^verbatim>\<open>(total_size, blocks)\<close>.
\<close>

definition write_uncompressed ::
  "byte list \<Rightarrow> byte list \<Rightarrow> u32 list \<Rightarrow> py_error + (byte list \<times> u32 list \<times> nat \<times> int)" where
  "write_uncompressed data buffers sizes =
     (let total_size = min (length data) BRICK_SIZE in
      if length buffers \<noteq> BRICK_SIZE then Inl ValueError
      else
        let buffers' = take total_size data @ drop total_size buffers in
        if total_size = BRICK_SIZE then
          Inr (buffers', map (\<lambda>_. of_nat BLOCK_SIZE) sizes, total_size, 8)
        else
          let blocks = (int total_size - 1) div int BLOCK_SIZE + 1;
              sizes1 = slice_fill sizes 0 (blocks - 1) (of_nat BLOCK_SIZE)
          in case index_set sizes1 (blocks - 1) (of_nat (total_size mod BLOCK_SIZE)) of
               Inl e \<Rightarrow> Inl e
             | Inr sizes2 \<Rightarrow> Inr (buffers', slice_fill sizes2 blocks 8 0, total_size, blocks))"

section \<open>Draining a brick: \<^verbatim>\<open>read_compressed\<close>\<close>

definition pack_u32_le :: "u32 \<Rightarrow> byte list" where
  "pack_u32_le x = [ucast x, ucast (drop_bit 8 x), ucast (drop_bit 16 x), ucast (drop_bit 24 x)]"

definition buffer_rows :: "byte list \<Rightarrow> byte list list" where
  "buffer_rows buffers = map (\<lambda>i. take BLOCK_SIZE (drop (i * BLOCK_SIZE) buffers)) [0..<8]"

definition block_record :: "u32 \<times> byte list \<Rightarrow> byte list" where
  "block_record = (\<lambda>(sz, buffer). pack_u32_le sz @ take (unat sz) buffer)"

definition read_compressed :: "byte list \<Rightarrow> byte list \<Rightarrow> u32 list \<Rightarrow> int \<Rightarrow> byte list" where
  "read_compressed stream buffers sizes blocks =
     foldl (\<lambda>st b. st @ block_record b) stream
       (zip (py_slice sizes 0 blocks) (py_slice (buffer_rows buffers) 0 blocks))"

section \<open>The accelerator and the buffers\<close>

text \<open>
  The compression kernel is vendor hardware. It is a parameter: a function of the arguments of
  \<^verbatim>\<open>compress_kernel.call(in, out, compressed_size, uncompressed_size, 1024, brick_size)\<close>
  that returns the new contents of the two arrays it writes, \<^verbatim>\<open>out\<close> and
  \<^verbatim>\<open>compressed_size\<close>.
\<close>

type_synonym kernel =
  "byte list \<Rightarrow> byte list \<Rightarrow> u32 list \<Rightarrow> u32 list \<Rightarrow> nat \<Rightarrow> nat \<Rightarrow> byte list \<times> u32 list"

record slot =
  in_buffers :: "byte list"
  out_buffers :: "byte list"
  compressed_size :: "u32 list"
  uncompressed_size :: "u32 list"

text \<open>
  The host-side and accelerator-side operations, with the slot they touch, in program order.
  \<open>Wait s\<close> is the wait on the handle returned by the start on slot \<open>s\<close>. The blocking
  \<^verbatim>\<open>call\<close> of the reference implementation is a start followed at once by its wait.
  Both compressors carry the list of events so far as an extra argument \<open>tr\<close>; nothing
  they compute depends on it.
\<close>

datatype event = Pack nat | Start nat | Wait nat | Unpack nat

definition LZ4_MAGIC :: "byte list" where
  "LZ4_MAGIC = [0x04, 0x22, 0x4D, 0x18]"

definition LZ4_HEADER :: "byte list" where
  "LZ4_HEADER = LZ4_MAGIC @ [0x60, 0x60, 0x51]"

text \<open>
  The three call sites on one buffer set: \<^verbatim>\<open>write_uncompressed(data, in_buffers, uncompressed_size)\<close>,
  the kernel run on the four arrays, and
  \<^verbatim>\<open>read_compressed(stream, out_buffers, compressed_size, blocks)\<close>.
\<close>

definition write_slot :: "byte list \<Rightarrow> slot \<Rightarrow> py_error + (slot \<times> nat \<times> int)" where
  "write_slot data s =
     (case write_uncompressed data (in_buffers s) (uncompressed_size s) of
        Inl e \<Rightarrow> Inl e
      | Inr (inb, us, total_size, blocks) \<Rightarrow>
          Inr (s\<lparr>in_buffers := inb, uncompressed_size := us\<rparr>, total_size, blocks))"

definition run_kernel :: "kernel \<Rightarrow> slot \<Rightarrow> nat \<Rightarrow> slot" where
  "run_kernel kern s brick_size =
     (case kern (in_buffers s) (out_buffers s) (compressed_size s) (uncompressed_size s)
             1024 brick_size of
        (outb, cs) \<Rightarrow> s\<lparr>out_buffers := outb, compressed_size := cs\<rparr>)"

definition read_slot :: "byte list \<Rightarrow> slot \<Rightarrow> int \<Rightarrow> byte list" where
  "read_slot stream s blocks = read_compressed stream (out_buffers s) (compressed_size s) blocks"

lemma write_uncompressed_total:
  "write_uncompressed d b s = Inr (b', s', t, bl) \<Longrightarrow> t = min (length d) BRICK_SIZE"
  by (auto simp: write_uncompressed_def Let_def split: if_splits sum.splits)

lemma write_slot_total:
  "write_slot d s = Inr (s', t, bl) \<Longrightarrow> t = min (length d) BRICK_SIZE"
  by (auto simp: write_slot_def split: sum.splits dest: write_uncompressed_total)

lemma BRICK_SIZE_pos: "0 < BRICK_SIZE"
  by (simp add: BRICK_SIZE_def BLOCK_SIZE_def)

section \<open>The reference compressor: \<^verbatim>\<open>compress_hw\<close>\<close>

function compress_hw_loop ::
  "kernel \<Rightarrow> byte list \<Rightarrow> nat \<Rightarrow> slot \<Rightarrow> byte list \<Rightarrow> event list
     \<Rightarrow> py_error + (byte list \<times> slot \<times> event list)" where
  "compress_hw_loop kern view offset bufs stream tr =
     (if offset < length view then
        (case write_slot (drop offset view) bufs of
           Inl e \<Rightarrow> Inl e
         | Inr (bufs1, brick_size, blocks) \<Rightarrow>
             let bufs2 = run_kernel kern bufs1 brick_size in
             compress_hw_loop kern view (offset + brick_size) bufs2
               (read_slot stream bufs2 blocks)
               (tr @ [Pack 0, Start 0, Wait 0, Unpack 0]))
      else Inr (stream, bufs, tr))"
  by pat_completeness auto
termination
proof (relation "measure (\<lambda>(kern, view, offset, bufs, stream, tr). length view - offset)", goal_cases)
  case 1
  show ?case by simp
next
  case 2
  then show ?case
    using BRICK_SIZE_pos by (auto dest!: write_slot_total)
qed

definition compress_hw ::
  "kernel \<Rightarrow> slot \<Rightarrow> byte list \<Rightarrow> py_error + (byte list \<times> slot \<times> event list)" where
  "compress_hw kern bufs raw_data =
     (case compress_hw_loop kern raw_data 0 bufs LZ4_HEADER [] of
        Inl e \<Rightarrow> Inl e
      | Inr (stream, bufs', tr) \<Rightarrow> Inr (stream @ [0x00, 0x00, 0x00, 0x00], bufs', tr))"

section \<open>The pipelined compressor: \<^verbatim>\<open>compress_overlapped\<close>\<close>

text \<open>
  The buffers now have a leading dimension of size 2: \<open>slots\<close> is the list of the two
  buffer sets, indexed by \<open>active\<close>. The loop function is one iteration of
  \<^verbatim>\<open>while True\<close>, entered with the loop variables as arguments; it returns at the
  \<^verbatim>\<open>break\<close>. The kernel's writes to slot \<open>active\<close> are applied at the start; the
  handle \<open>wh\<close> is the slot it was started on.
\<close>

function overlapped_loop ::
  "kernel \<Rightarrow> byte list \<Rightarrow> nat \<Rightarrow> nat \<Rightarrow> int \<Rightarrow> nat \<Rightarrow> int \<Rightarrow> byte list \<Rightarrow> slot list \<Rightarrow> event list
     \<Rightarrow> py_error + (byte list \<times> slot list \<times> nat \<times> int \<times> nat \<times> event list)" where
  "overlapped_loop kern view offset active previous_blocks brick_size blocks stream slots tr =
     (if \<not> (active < length slots \<and> active XOR 1 < length slots) then Inl IndexError
      else
        let slots1 = slots[active := run_kernel kern (slots ! active) brick_size];
            wh = active;
            tr1 = tr @ [Start active];
            active1 = active XOR 1;
            offset1 = offset + brick_size;
            stream1 = (if previous_blocks \<noteq> 0
                       then read_slot stream (slots1 ! active1) previous_blocks
                       else stream);
            tr2 = (if previous_blocks \<noteq> 0 then tr1 @ [Unpack active1] else tr1);
            previous_blocks1 = blocks
        in if offset1 < length view then
             (case write_slot (drop offset1 view) (slots1 ! active1) of
                Inl e \<Rightarrow> Inl e
              | Inr (s, brick_size1, blocks1) \<Rightarrow>
                  overlapped_loop kern view offset1 active1 previous_blocks1 brick_size1 blocks1
                    stream1 (slots1[active1 := s]) (tr2 @ [Pack active1, Wait wh]))
           else Inr (stream1, slots1, active1, previous_blocks1, wh, tr2))"
  by pat_completeness auto
termination
proof (relation "measures [\<lambda>(kern, view, offset, active, previous_blocks, brick_size, blocks, stream, slots, tr). length view - offset,
                           \<lambda>(kern, view, offset, active, previous_blocks, brick_size, blocks, stream, slots, tr). if brick_size = 0 then 1 else 0]", goal_cases)
  case 1
  show ?case by simp
next
  case 2
  then show ?case
    using BRICK_SIZE_pos by (auto dest!: write_slot_total)
qed

definition compress_overlapped ::
  "kernel \<Rightarrow> slot list \<Rightarrow> byte list \<Rightarrow> py_error + (byte list \<times> slot list \<times> event list)" where
  "compress_overlapped kern slots raw_data =
     (if \<not> 0 < length slots then Inl IndexError
      else
        case write_slot (drop 0 raw_data) (slots ! 0) of
          Inl e \<Rightarrow> Inl e
        | Inr (s, brick_size, blocks) \<Rightarrow>
            (case overlapped_loop kern raw_data 0 0 0 brick_size blocks LZ4_HEADER
                    (slots[0 := s]) [Pack 0] of
               Inl e \<Rightarrow> Inl e
             | Inr (stream, slots', active, previous_blocks, wh, tr) \<Rightarrow>
                 let active' = active XOR 1 in
                 Inr (read_slot stream (slots' ! active') previous_blocks
                        @ [0x00, 0x00, 0x00, 0x00],
                      slots', tr @ [Wait wh, Unpack active'])))"

section \<open>What \<^verbatim>\<open>write_uncompressed\<close> records\<close>

text \<open>
  On buffers of the allocated shapes the function never raises, and its result depends on the
  window only through \<open>total_size\<close>: \<open>code_blocks\<close> is the block count it returns and
  \<open>code_sizes\<close> the size array it leaves behind.
\<close>

definition code_blocks :: "nat \<Rightarrow> int" where
  "code_blocks t = (if t = BRICK_SIZE then 8 else (int t - 1) div int BLOCK_SIZE + 1)"

definition code_sizes :: "nat \<Rightarrow> u32 list" where
  "code_sizes t =
     map (\<lambda>i. if t = BRICK_SIZE \<or> int i < code_blocks t - 1 then of_nat BLOCK_SIZE
               else if int i = code_blocks t - 1 then of_nat (t mod BLOCK_SIZE) else 0) [0..<8]"

lemma BLOCK_SIZE_pos: "0 < BLOCK_SIZE"
  by (simp add: BLOCK_SIZE_def)

lemma code_blocks_nat:
  "code_blocks t = (if t = BRICK_SIZE then 8 else if t = 0 then 0 else int ((t - 1) div BLOCK_SIZE) + 1)"
proof (cases "t = 0")
  case True
  then show ?thesis by (simp add: code_blocks_def BLOCK_SIZE_def BRICK_SIZE_def)
next
  case False
  then have "int t - 1 = int (t - 1)" by simp
  then show ?thesis using False by (simp add: code_blocks_def zdiv_int)
qed

lemma code_blocks_range:
  assumes "t \<le> BRICK_SIZE"
  shows "0 \<le> code_blocks t \<and> code_blocks t \<le> 8"
proof (cases "t = BRICK_SIZE \<or> t = 0")
  case True
  then show ?thesis by (auto simp: code_blocks_nat)
next
  case False
  with assms have "t - 1 < 8 * BLOCK_SIZE" unfolding BRICK_SIZE_def by arith
  then have "(t - 1) div BLOCK_SIZE < 8"
    using BLOCK_SIZE_pos by (simp add: less_mult_imp_div_less mult.commute)
  with False show ?thesis by (simp add: code_blocks_nat)
qed

lemma length_slice_fill [simp]: "length (slice_fill xs lo hi v) = length xs"
  by (simp add: slice_fill_def Let_def)

lemma nth_slice_fill:
  "i < length xs \<Longrightarrow> slice_fill xs lo hi v ! i =
     (if py_norm (length xs) lo \<le> i \<and> i < py_norm (length xs) hi then v else xs ! i)"
  by (simp add: slice_fill_def Let_def)

lemma write_uncompressed_eq:
  assumes "length buffers = BRICK_SIZE" "length sizes = 8"
  shows "write_uncompressed data buffers sizes =
           Inr (take (min (length data) BRICK_SIZE) data @ drop (min (length data) BRICK_SIZE) buffers,
                code_sizes (min (length data) BRICK_SIZE),
                min (length data) BRICK_SIZE,
                code_blocks (min (length data) BRICK_SIZE))"
proof -
  define t where "t = min (length data) BRICK_SIZE"
  have tle: "t \<le> BRICK_SIZE" by (simp add: t_def)
  show ?thesis
  proof (cases "t = BRICK_SIZE")
    case True
    have "map (\<lambda>_. of_nat BLOCK_SIZE) sizes = code_sizes t"
      using assms(2) True by (intro nth_equalityI) (auto simp: code_sizes_def)
    with True assms show ?thesis
      unfolding t_def [symmetric] by (simp add: write_uncompressed_def Let_def code_blocks_def flip: t_def)
  next
    case False
    define b where "b = code_blocks t"
    have b: "b = (int t - 1) div int BLOCK_SIZE + 1" using False by (simp add: b_def code_blocks_def)
    have br: "0 \<le> b" "b \<le> 8" using code_blocks_range [OF tle] by (simp_all add: b_def)
    define s1 where "s1 = slice_fill sizes 0 (b - 1) (of_nat BLOCK_SIZE)"
    have l1: "length s1 = 8" by (simp add: s1_def assms)
    have ix: "index_set s1 (b - 1) (of_nat (t mod BLOCK_SIZE))
                = Inr (s1[nat (if b = 0 then 7 else b - 1) := of_nat (t mod BLOCK_SIZE)])"
      using br l1 by (cases "b = 0") (auto simp: index_set_def Let_def)
    have fin: "slice_fill (s1[nat (if b = 0 then 7 else b - 1) := of_nat (t mod BLOCK_SIZE)]) b 8 0 = code_sizes t"
    proof (intro nth_equalityI)
      show "length (slice_fill (s1[nat (if b = 0 then 7 else b - 1) := word_of_nat (t mod BLOCK_SIZE)]) b 8 0) = length (code_sizes t)"
        by (simp add: l1 code_sizes_def)
    next
      fix i assume "i < length (slice_fill (s1[nat (if b = 0 then 7 else b - 1) := word_of_nat (t mod BLOCK_SIZE)]) b 8 0)"
      then have i: "i < 8" by (simp add: l1)
      show "slice_fill (s1[nat (if b = 0 then 7 else b - 1) := word_of_nat (t mod BLOCK_SIZE)]) b 8 0 ! i = code_sizes t ! i"
        using i br False l1 assms(2)
        by (auto simp: nth_slice_fill s1_def code_sizes_def py_norm_def nth_list_update simp flip: b_def split: if_splits)
    qed
    show ?thesis
      using False assms ix fin
      by (simp add: write_uncompressed_def Let_def flip: t_def b s1_def) (simp add: b_def)
  qed
qed


section \<open>Shapes, steps of the pipelined loop, and its trace\<close>

definition slot_ok :: "slot \<Rightarrow> bool" where
  "slot_ok s \<longleftrightarrow> length (in_buffers s) = BRICK_SIZE \<and> length (uncompressed_size s) = 8"

definition slots_ok :: "slot list \<Rightarrow> bool" where
  "slots_ok slots \<longleftrightarrow> length slots = 2 \<and> slot_ok (slots ! 0) \<and> slot_ok (slots ! 1)"

definition packed :: "slot \<Rightarrow> byte list \<Rightarrow> slot" where
  "packed s data =
     s\<lparr>in_buffers := take (min (length data) BRICK_SIZE) data
                        @ drop (min (length data) BRICK_SIZE) (in_buffers s),
       uncompressed_size := code_sizes (min (length data) BRICK_SIZE)\<rparr>"

lemma write_slot_eq:
  "slot_ok s \<Longrightarrow> write_slot data s
     = Inr (packed s data, min (length data) BRICK_SIZE, code_blocks (min (length data) BRICK_SIZE))"
  by (simp add: write_slot_def slot_ok_def write_uncompressed_eq packed_def)

lemma slot_ok_packed [simp]: "slot_ok s \<Longrightarrow> slot_ok (packed s data)"
  by (auto simp: slot_ok_def packed_def code_sizes_def)

lemma slot_ok_run_kernel [simp]: "slot_ok (run_kernel kern s n) = slot_ok s"
  by (simp add: slot_ok_def run_kernel_def split: prod.splits)

lemma xor_one_lt2: "a < 2 \<Longrightarrow> a XOR (1::nat) = 1 - a"
  by (cases a) (auto simp: less_Suc_eq numeral_2_eq_2)

lemma xor_Suc0_lt2: "a < 2 \<Longrightarrow> a XOR Suc 0 = Suc 0 - a"
  using xor_one_lt2 [of a] by simp

lemma slots_ok_update [simp]:
  "slots_ok slots \<Longrightarrow> a < 2 \<Longrightarrow> slot_ok s \<Longrightarrow> slots_ok (slots[a := s])"
  by (auto simp: slots_ok_def nth_list_update less_Suc_eq numeral_2_eq_2)

lemma slots_ok_nth: "slots_ok slots \<Longrightarrow> a < 2 \<Longrightarrow> slot_ok (slots ! a)"
  by (auto simp: slots_ok_def less_Suc_eq numeral_2_eq_2)

declare overlapped_loop.simps [simp del] compress_hw_loop.simps [simp del]

lemma read_slot_zero [simp]: "read_slot stream s 0 = stream"
  by (simp add: read_slot_def read_compressed_def py_slice_def py_norm_def)

lemma overlapped_loop_break:
  assumes "slots_ok slots" "active < 2" "\<not> offset + brick_size < length view"
  shows "overlapped_loop kern view offset active previous_blocks brick_size blocks stream slots tr
       = Inr (read_slot stream (slots ! (1 - active)) previous_blocks,
              slots[active := run_kernel kern (slots ! active) brick_size],
              1 - active, blocks, active,
              tr @ [Start active] @ (if previous_blocks \<noteq> 0 then [Unpack (1 - active)] else []))"
proof -
  have l: "length slots = 2" using assms(1) by (simp add: slots_ok_def)
  have ne: "1 - active \<noteq> active" "1 - active < 2" using assms(2) by arith+
  show ?thesis
    using assms l ne
    by (subst overlapped_loop.simps) (simp add: xor_Suc0_lt2 Let_def)
qed

lemma overlapped_loop_continue:
  assumes "slots_ok slots" "active < 2" "offset + brick_size < length view"
  shows "overlapped_loop kern view offset active previous_blocks brick_size blocks stream slots tr
       = overlapped_loop kern view (offset + brick_size) (1 - active) blocks
           (min (length view - (offset + brick_size)) BRICK_SIZE)
           (code_blocks (min (length view - (offset + brick_size)) BRICK_SIZE))
           (read_slot stream (slots ! (1 - active)) previous_blocks)
           (slots[active := run_kernel kern (slots ! active) brick_size,
                  1 - active := packed (slots ! (1 - active)) (drop (offset + brick_size) view)])
           (tr @ [Start active] @ (if previous_blocks \<noteq> 0 then [Unpack (1 - active)] else [])
               @ [Pack (1 - active), Wait active])"
proof -
  have l: "length slots = 2" using assms(1) by (simp add: slots_ok_def)
  have ne: "1 - active \<noteq> active" "1 - active < 2" using assms(2) by arith+
  have ok: "slot_ok (slots ! (1 - active))" using assms(1) ne(2) by (rule slots_ok_nth)
  show ?thesis
    using assms l ne ok
    by (subst overlapped_loop.simps) (simp add: xor_Suc0_lt2 Let_def write_slot_eq)
qed


fun loop_events :: "nat \<Rightarrow> bool \<Rightarrow> nat \<Rightarrow> event list" where
  "loop_events a p 0 = Start a # (if p then [Unpack (1 - a)] else [])"
| "loop_events a p (Suc n) =
     Start a # (if p then [Unpack (1 - a)] else []) @ [Pack (1 - a), Wait a]
       @ loop_events (1 - a) True n"

fun last_slot :: "nat \<Rightarrow> nat \<Rightarrow> nat" where
  "last_slot a 0 = a"
| "last_slot a (Suc n) = last_slot (1 - a) n"

definition overlapped_events :: "nat \<Rightarrow> event list" where
  "overlapped_events n =
     Pack 0 # loop_events 0 False n @ [Wait (last_slot 0 n), Unpack (last_slot 0 n)]"

lemma last_slot_lt2: "a < 2 \<Longrightarrow> last_slot a n < 2"
  by (induction n arbitrary: a) auto

lemma code_blocks_pos: "0 < t \<Longrightarrow> t \<le> BRICK_SIZE \<Longrightarrow> code_blocks t \<noteq> 0"
  by (simp add: code_blocks_nat)

definition bricks_left :: "nat \<Rightarrow> nat" where
  "bricks_left r = (r - 1) div BRICK_SIZE"

lemma bricks_left_Suc:
  assumes "BRICK_SIZE < r"
  shows "bricks_left r = Suc (bricks_left (r - BRICK_SIZE))"
proof -
  have "r - 1 = (r - BRICK_SIZE - 1) + BRICK_SIZE" using assms by simp
  then show ?thesis using BRICK_SIZE_pos unfolding bricks_left_def by (simp only: div_add_self2)
qed

lemma bricks_left_0: "r \<le> BRICK_SIZE \<Longrightarrow> bricks_left r = 0"
  using BRICK_SIZE_pos by (simp add: bricks_left_def)

lemma overlapped_loop_trace:
  assumes "slots_ok slots" "active < 2" "offset \<le> length view"
    and "brick_size = min (length view - offset) BRICK_SIZE"
    and "blocks = code_blocks brick_size"
  shows "\<exists>stream' slots' pb'.
           overlapped_loop kern view offset active pb brick_size blocks stream slots tr
             = Inr (stream', slots',
                    1 - last_slot active (bricks_left (length view - offset)), pb',
                    last_slot active (bricks_left (length view - offset)),
                    tr @ loop_events active (pb \<noteq> 0) (bricks_left (length view - offset)))"
  using assms
proof (induction "length view - offset"
    arbitrary: offset active pb brick_size blocks stream slots tr rule: less_induct)
  case less
  show ?case
  proof (cases "offset + brick_size < length view")
    case False
    then have r: "length view - offset \<le> BRICK_SIZE" using less.prems by auto
    show ?thesis
      using less.prems False
      by (simp add: overlapped_loop_break bricks_left_0 [OF r])
  next
    case True
    then have bs: "brick_size = BRICK_SIZE" and r: "BRICK_SIZE < length view - offset"
      using less.prems by auto
    let ?o = "offset + brick_size"
    let ?sl = "slots[active := run_kernel kern (slots ! active) brick_size,
                  1 - active := packed (slots ! (1 - active)) (drop ?o view)]"
    let ?tr = "tr @ [Start active] @ (if pb \<noteq> 0 then [Unpack (1 - active)] else [])
               @ [Pack (1 - active), Wait active]"
    have a1: "1 - active < 2" using less.prems(2) by arith
    have ok: "slots_ok ?sl"
      using less.prems(1,2) a1 by (simp add: slots_ok_nth)
    have nz: "blocks \<noteq> 0"
      using less.prems(5) bs BRICK_SIZE_pos by (simp add: code_blocks_pos)
    have m: "length view - ?o < length view - offset"
      using True bs BRICK_SIZE_pos by simp
    have le: "?o \<le> length view" using True by simp
    have n: "bricks_left (length view - offset) = Suc (bricks_left (length view - ?o))"
      using bricks_left_Suc [OF r] bs by (simp add: algebra_simps)
    from less.hyps [OF m ok a1 le refl refl, of blocks
        "read_slot stream (slots ! (1 - active)) pb" ?tr]
    obtain stream' slots' pb' where
      "overlapped_loop kern view ?o (1 - active) blocks
         (min (length view - ?o) BRICK_SIZE) (code_blocks (min (length view - ?o) BRICK_SIZE))
         (read_slot stream (slots ! (1 - active)) pb) ?sl ?tr
       = Inr (stream', slots',
              1 - last_slot (1 - active) (bricks_left (length view - ?o)), pb',
              last_slot (1 - active) (bricks_left (length view - ?o)),
              ?tr @ loop_events (1 - active) (blocks \<noteq> 0) (bricks_left (length view - ?o)))"
      by blast
    then show ?thesis
      using nz
      by (simp add: overlapped_loop_continue [OF less.prems(1,2) True] n)
  qed
qed


definition trace_of :: "py_error + ('a \<times> 'b \<times> event list) \<Rightarrow> event list option" where
  "trace_of r = (case r of Inl e \<Rightarrow> None | Inr (stream, bufs, tr) \<Rightarrow> Some tr)"

definition stream_of :: "py_error + (byte list \<times> 'b \<times> event list) \<Rightarrow> byte list option" where
  "stream_of r = (case r of Inl e \<Rightarrow> None | Inr (stream, bufs, tr) \<Rightarrow> Some stream)"

definition buffers_of :: "py_error + (byte list \<times> 'b \<times> event list) \<Rightarrow> 'b option" where
  "buffers_of r = (case r of Inl e \<Rightarrow> None | Inr (stream, bufs, tr) \<Rightarrow> Some bufs)"

fun own_run :: "nat list \<Rightarrow> event list \<Rightarrow> bool" where
  "own_run fl [] = True"
| "own_run fl (Start s # es) = own_run (s # fl) es"
| "own_run fl (Wait s # es) = own_run (removeAll s fl) es"
| "own_run fl (Pack s # es) = (s \<notin> set fl \<and> own_run fl es)"
| "own_run fl (Unpack s # es) = (s \<notin> set fl \<and> own_run fl es)"

fun seq_run :: "nat option \<Rightarrow> event list \<Rightarrow> bool" where
  "seq_run cur [] = True"
| "seq_run cur (Start s # es) = (cur = None \<and> seq_run (Some s) es)"
| "seq_run cur (Wait s # es) = (cur = Some s \<and> seq_run None es)"
| "seq_run cur (Pack s # es) = seq_run cur es"
| "seq_run cur (Unpack s # es) = seq_run cur es"

lemma compress_overlapped_trace:
  assumes "slots_ok slots"
  shows "\<exists>stream slots'. compress_overlapped kern slots D
           = Inr (stream, slots', overlapped_events (bricks_left (length D)))"
proof -
  have l: "0 < length slots" and ok0: "slot_ok (slots ! 0)"
    using assms by (simp_all add: slots_ok_def)
  have ok: "slots_ok (slots[0 := packed (slots ! 0) D])"
    using assms ok0 by simp
  from overlapped_loop_trace [OF ok _ _ refl refl, of 0 0 D kern 0 LZ4_HEADER "[Pack 0]"]
  obtain stream' slots' pb' where
    "overlapped_loop kern D 0 0 0 (min (length D) BRICK_SIZE)
        (code_blocks (min (length D) BRICK_SIZE)) LZ4_HEADER
        (slots[0 := packed (slots ! 0) D]) [Pack 0]
      = Inr (stream', slots', 1 - last_slot 0 (bricks_left (length D)), pb',
             last_slot 0 (bricks_left (length D)),
             [Pack 0] @ loop_events 0 False (bricks_left (length D)))"
    by auto
  moreover have "(1 - last_slot 0 (bricks_left (length D))) XOR 1
                   = last_slot 0 (bricks_left (length D))"
    using last_slot_lt2 [of 0 "bricks_left (length D)"]
    by (subst xor_one_lt2) auto
  ultimately show ?thesis
    using l by (simp add: compress_overlapped_def write_slot_eq [OF ok0] overlapped_events_def Let_def)
qed

lemma own_run_loop_events:
  "a < 2 \<Longrightarrow> own_run [] (loop_events a p n @ [Wait (last_slot a n), Unpack (last_slot a n)])"
proof (induction n arbitrary: a p)
  case 0
  then have "1 - a \<noteq> a" by arith
  then show ?case by auto
next
  case (Suc n)
  then have "1 - a < 2" "1 - a \<noteq> a" by arith+
  with Suc.IH [of "1 - a" True] show ?case by auto
qed

lemma seq_run_loop_events:
  "seq_run None (loop_events a p n @ [Wait (last_slot a n), Unpack (last_slot a n)])"
  by (induction n arbitrary: a p) auto


lemma code_blocks_1: "code_blocks (Suc 0) = 1"
  by (simp add: code_blocks_nat BRICK_SIZE_def BLOCK_SIZE_def)

lemma code_sizes_1: "code_sizes (Suc 0) = 1 # replicate 7 0"
  by (intro nth_equalityI)
     (auto simp: code_sizes_def code_blocks_1 BRICK_SIZE_def BLOCK_SIZE_def nth_Cons split: nat.splits)

lemma code_blocks_full: "code_blocks BRICK_SIZE = 8"
  by (simp add: code_blocks_def)


lemma uncompressed_size_run_kernel [simp]:
  "uncompressed_size (run_kernel kern s n) = uncompressed_size s"
  by (simp add: run_kernel_def split: prod.splits)

lemma in_buffers_run_kernel [simp]:
  "in_buffers (run_kernel kern s n) = in_buffers s"
  by (simp add: run_kernel_def split: prod.splits)

lemma uncompressed_size_packed:
  "uncompressed_size (packed s data) = code_sizes (min (length data) BRICK_SIZE)"
  by (simp add: packed_def)

lemma min_one_BRICK_SIZE: "min (Suc 0) BRICK_SIZE = Suc 0"
  using BRICK_SIZE_pos by simp

lemma two_bricks_run:
  assumes "slots_ok slots" and "length D = BRICK_SIZE + 1"
  shows "trace_of (compress_overlapped kern slots D)
           = Some [Pack 0, Start 0, Pack 1, Wait 0, Start 1, Unpack 0, Wait 1, Unpack 1]
       \<and> map_option (\<lambda>sl. uncompressed_size (sl ! 1)) (buffers_of (compress_overlapped kern slots D))
           = Some (1 # replicate 7 0)"
proof -
  define sl1 where "sl1 = slots[0 := packed (slots ! 0) D]"
  define sl2 where "sl2 = sl1[0 := run_kernel kern (sl1 ! 0) BRICK_SIZE,
                              1 := packed (sl1 ! 1) (drop BRICK_SIZE D)]"
  define sl3 where "sl3 = sl2[1 := run_kernel kern (sl2 ! 1) 1]"
  have l: "0 < length slots" and ok0: "slot_ok (slots ! 0)"
    using assms by (simp_all add: slots_ok_def)
  have ok1: "slots_ok sl1"
    using assms ok0 by (simp add: sl1_def)
  have ok2: "slots_ok sl2"
    using ok1 by (simp add: sl2_def slots_ok_nth)
  have m: "min (length D) BRICK_SIZE = BRICK_SIZE" using assms(2) by simp
  have m2: "min (length D - BRICK_SIZE) BRICK_SIZE = 1"
    using assms(2) BRICK_SIZE_pos by simp
  have s1: "overlapped_loop kern D 0 0 0 BRICK_SIZE 8 LZ4_HEADER sl1 [Pack 0]
          = overlapped_loop kern D BRICK_SIZE 1 8 1 1 LZ4_HEADER sl2 [Pack 0, Start 0, Pack 1, Wait 0]"
    using overlapped_loop_continue [OF ok1, of 0 0 BRICK_SIZE D kern 0 8 LZ4_HEADER "[Pack 0]"]
    by (simp add: assms(2) min_one_BRICK_SIZE code_blocks_1 sl2_def)
  have s2: "overlapped_loop kern D BRICK_SIZE 1 8 1 1 LZ4_HEADER sl2 [Pack 0, Start 0, Pack 1, Wait 0]
          = Inr (read_slot LZ4_HEADER (sl2 ! 0) 8, sl3, 0, 1, 1,
                 [Pack 0, Start 0, Pack 1, Wait 0, Start 1, Unpack 0])"
    using overlapped_loop_break [OF ok2, of 1 BRICK_SIZE 1 D kern 8 1 LZ4_HEADER "[Pack 0, Start 0, Pack 1, Wait 0]"]
    by (simp add: assms(2) sl3_def)
  have len2: "length sl2 = 2" using ok2 by (simp add: slots_ok_def)
  have us: "uncompressed_size (sl3 ! 1) = 1 # replicate 7 0"
    using len2 assms(2) by (simp add: sl3_def sl2_def uncompressed_size_packed min_one_BRICK_SIZE code_sizes_1)
  show ?thesis
    using l s1 s2 us
    by (simp add: compress_overlapped_def write_slot_eq [OF ok0] m trace_of_def buffers_of_def
        code_blocks_full Let_def flip: sl1_def)
qed

section \<open>Claims about the runs of the two compressors\<close>

text \<open>
  A stand-in accelerator for concrete runs: it stores each block uncompressed. Block \<open>i\<close> of
  the output is the first \<open>uncompressed_size[i]\<close> bytes of block \<open>i\<close> of the first
  \<open>input_size\<close> input bytes, zero-padded, and \<open>compressed_size[i]\<close> is its length.
\<close>

definition store_kernel :: kernel where
  "store_kernel inb outb cs us block_size_kb input_size =
     (let stored = map (\<lambda>i. take (unat ((us @ replicate 8 0) ! i))
                          (take (block_size_kb * 1024)
                             (drop (i * (block_size_kb * 1024)) (take input_size inb))))
                     [0..<8]
      in (concat (map (\<lambda>b. b @ replicate (block_size_kb * 1024 - length b) 0) stored),
          map (\<lambda>b. of_nat (length b)) stored))"

definition fresh_slot :: slot where
  "fresh_slot = \<lparr>in_buffers = replicate BRICK_SIZE 0, out_buffers = replicate BRICK_SIZE 0,
                  compressed_size = replicate 8 0, uncompressed_size = replicate 8 0\<rparr>"

lemma slot_ok_fresh: "slot_ok fresh_slot"
  by (simp add: slot_ok_def fresh_slot_def)

lemma slots_ok_fresh: "slots_ok [fresh_slot, fresh_slot]"
  by (simp add: slots_ok_def slot_ok_fresh)

text \<open>
  C5. In every run of \<^verbatim>\<open>compress_overlapped\<close> on buffers of the allocated shapes, no
  \<^verbatim>\<open>write_uncompressed\<close> (\<open>Pack\<close>) and no \<^verbatim>\<open>read_compressed\<close> (\<open>Unpack\<close>) on a slot
  happens between the kernel start on that slot and the wait on the handle of that start:
  \<open>own_run\<close> scans the trace with the list of slots in flight and rejects such an event.
\<close>

theorem slot_ownership:
  assumes "slots_ok slots"
  shows "\<exists>tr. trace_of (compress_overlapped kern slots D) = Some tr \<and> own_run [] tr"
proof -
  from compress_overlapped_trace [OF assms] obtain stream slots' where
    "compress_overlapped kern slots D
       = Inr (stream, slots', overlapped_events (bricks_left (length D)))"
    by blast
  moreover have "own_run [] (overlapped_events (bricks_left (length D)))"
    using own_run_loop_events [of 0 False] by (simp add: overlapped_events_def)
  ultimately show ?thesis by (simp add: trace_of_def)
qed

theorem slot_ownership_witness:
  "slots_ok [fresh_slot, fresh_slot]
   \<and> (\<exists>tr. trace_of (compress_overlapped store_kernel [fresh_slot, fresh_slot] [1, 2, 3]) = Some tr
           \<and> own_run [] tr)"
  using slot_ownership [of "[fresh_slot, fresh_slot]" store_kernel "[1, 2, 3]"] slots_ok_fresh
  by simp

fun slot_run :: "nat list \<Rightarrow> event list \<Rightarrow> bool" where
  "slot_run fl [] = True"
| "slot_run fl (Start s # es) = (s \<notin> set fl \<and> slot_run (s # fl) es)"
| "slot_run fl (Wait s # es) = slot_run (removeAll s fl) es"
| "slot_run fl (Pack s # es) = slot_run fl es"
| "slot_run fl (Unpack s # es) = slot_run fl es"

lemma slot_run_loop_events:
  "slot_run [] (loop_events a p n @ [Wait (last_slot a n), Unpack (last_slot a n)])"
  by (induction n arbitrary: a p) auto

text \<open>
  C6. In every run of \<^verbatim>\<open>compress_overlapped\<close>, a kernel start on a slot never happens
  while an earlier start on that slot has not been waited for (\<open>slot_run\<close>), and at most one
  kernel operation is outstanding at any point: each start finds none outstanding and each
  wait is the wait for the one outstanding (\<open>seq_run\<close>).
\<close>

theorem submissions_sequenced:
  assumes "slots_ok slots"
  shows "\<exists>tr. trace_of (compress_overlapped kern slots D) = Some tr
           \<and> slot_run [] tr \<and> seq_run None tr"
proof -
  from compress_overlapped_trace [OF assms] obtain stream slots' where
    "compress_overlapped kern slots D
       = Inr (stream, slots', overlapped_events (bricks_left (length D)))"
    by blast
  moreover have "seq_run None (overlapped_events (bricks_left (length D)))"
    using seq_run_loop_events [of 0 False] by (simp add: overlapped_events_def)
  moreover have "slot_run [] (overlapped_events (bricks_left (length D)))"
    using slot_run_loop_events [of 0 False] by (simp add: overlapped_events_def)
  ultimately show ?thesis by (simp add: trace_of_def)
qed

theorem submissions_sequenced_witness:
  "slots_ok [fresh_slot, fresh_slot]
   \<and> (\<exists>tr. trace_of (compress_overlapped store_kernel [fresh_slot, fresh_slot] [1, 2, 3]) = Some tr
           \<and> slot_run [] tr \<and> seq_run None tr)"
  using submissions_sequenced [of "[fresh_slot, fresh_slot]" store_kernel "[1, 2, 3]"] slots_ok_fresh
  by simp


lemma compress_hw_loop_step:
  assumes "slot_ok bufs" "offset < length view"
  shows "compress_hw_loop kern view offset bufs stream tr
       = compress_hw_loop kern view (offset + min (length view - offset) BRICK_SIZE)
           (run_kernel kern (packed bufs (drop offset view)) (min (length view - offset) BRICK_SIZE))
           (read_slot stream
              (run_kernel kern (packed bufs (drop offset view)) (min (length view - offset) BRICK_SIZE))
              (code_blocks (min (length view - offset) BRICK_SIZE)))
           (tr @ [Pack 0, Start 0, Wait 0, Unpack 0])"
  using assms by (subst compress_hw_loop.simps) (simp add: write_slot_eq Let_def)

lemma compress_hw_loop_done:
  "\<not> offset < length view \<Longrightarrow> compress_hw_loop kern view offset bufs stream tr = Inr (stream, bufs, tr)"
  by (subst compress_hw_loop.simps) simp

lemma one_brick_run:
  assumes "slots_ok slots" and "length D \<le> BRICK_SIZE"
  shows "compress_overlapped kern slots D
       = Inr (read_slot LZ4_HEADER
                (run_kernel kern (packed (slots ! 0) D) (length D)) (code_blocks (length D))
                @ [0, 0, 0, 0],
              slots[0 := run_kernel kern (packed (slots ! 0) D) (length D)],
              [Pack 0, Start 0, Wait 0, Unpack 0])"
proof -
  define sl1 where "sl1 = slots[0 := packed (slots ! 0) D]"
  have l: "0 < length slots" and ok0: "slot_ok (slots ! 0)"
    using assms by (simp_all add: slots_ok_def)
  have ok1: "slots_ok sl1"
    using assms ok0 by (simp add: sl1_def)
  have m: "min (length D) BRICK_SIZE = length D" using assms(2) by simp
  have s: "overlapped_loop kern D 0 0 0 (length D) (code_blocks (length D)) LZ4_HEADER sl1 [Pack 0]
          = Inr (LZ4_HEADER, sl1[0 := run_kernel kern (sl1 ! 0) (length D)], 1,
                 code_blocks (length D), 0, [Pack 0, Start 0])"
    using overlapped_loop_break [OF ok1, of 0 0 "length D" D kern 0 "code_blocks (length D)"
        LZ4_HEADER "[Pack 0]"]
    by simp
  have e: "sl1[0 := run_kernel kern (sl1 ! 0) (length D)]
             = slots[0 := run_kernel kern (packed (slots ! 0) D) (length D)]"
    using l by (simp add: sl1_def)
  have "compress_overlapped kern slots D
          = Inr (read_slot LZ4_HEADER (sl1[0 := run_kernel kern (sl1 ! 0) (length D)] ! 0)
                   (code_blocks (length D)) @ [0, 0, 0, 0],
                 sl1[0 := run_kernel kern (sl1 ! 0) (length D)],
                 [Pack 0, Start 0, Wait 0, Unpack 0])"
    using l s by (simp add: compress_overlapped_def write_slot_eq [OF ok0] m Let_def flip: sl1_def)
  then show ?thesis
    using l by (simp add: e)
qed


lemma code_blocks_0: "code_blocks 0 = 0"
  by (simp add: code_blocks_nat BRICK_SIZE_def BLOCK_SIZE_def)

lemma code_sizes_0: "code_sizes 0 = replicate 8 0"
  by (intro nth_equalityI) (auto simp: code_sizes_def code_blocks_0 BRICK_SIZE_def BLOCK_SIZE_def)

definition submissions :: "event list \<Rightarrow> nat" where
  "submissions tr = length (filter (\<lambda>e. case e of Start s \<Rightarrow> True | _ \<Rightarrow> False) tr)"

text \<open>
  C4, as stated, fails for \<^verbatim>\<open>compress_overlapped\<close>: the loop starts the kernel before it
  looks at the input length, so a zero-length input still makes one submission.
\<close>

theorem empty_input_one_submission:
  "map_option submissions (trace_of (compress_overlapped store_kernel [fresh_slot, fresh_slot] []))
     \<noteq> Some 0"
  using one_brick_run [OF slots_ok_fresh, of "[]" store_kernel]
  by (simp add: trace_of_def submissions_def)

text \<open>
  C4, amended. For a zero-length input both compressors emit exactly the header followed by
  the four zero bytes of the terminator. \<^verbatim>\<open>compress_hw\<close> touches neither buffers nor
  kernel; \<^verbatim>\<open>compress_overlapped\<close> packs the empty brick into slot 0 (all eight sizes 0),
  starts the kernel on it once, waits, and unpacks zero blocks.
\<close>

theorem empty_input:
  assumes "slots_ok slots"
  shows "stream_of (compress_hw kern bufs []) = Some (LZ4_HEADER @ [0, 0, 0, 0])
       \<and> trace_of (compress_hw kern bufs []) = Some []
       \<and> stream_of (compress_overlapped kern slots []) = Some (LZ4_HEADER @ [0, 0, 0, 0])
       \<and> trace_of (compress_overlapped kern slots []) = Some [Pack 0, Start 0, Wait 0, Unpack 0]
       \<and> map_option (\<lambda>sl. uncompressed_size (sl ! 0)) (buffers_of (compress_overlapped kern slots []))
            = Some (replicate 8 0)
       \<and> LZ4_HEADER = [0x04, 0x22, 0x4D, 0x18, 0x60, 0x60, 0x51]"
proof -
  have l: "0 < length slots" using assms by (simp add: slots_ok_def)
  have hw: "compress_hw kern bufs [] = Inr (LZ4_HEADER @ [0, 0, 0, 0], bufs, [])"
    by (simp add: compress_hw_def compress_hw_loop_done)
  have ov: "compress_overlapped kern slots []
              = Inr (LZ4_HEADER @ [0, 0, 0, 0],
                     slots[0 := run_kernel kern (packed (slots ! 0) []) 0],
                     [Pack 0, Start 0, Wait 0, Unpack 0])"
    using one_brick_run [OF assms, of "[]" kern] by (simp add: code_blocks_0)
  show ?thesis
    using l
    by (simp add: hw ov stream_of_def trace_of_def buffers_of_def uncompressed_size_packed
        code_sizes_0 LZ4_HEADER_def LZ4_MAGIC_def)
qed

theorem empty_input_witness:
  "slots_ok [fresh_slot, fresh_slot]
   \<and> stream_of (compress_overlapped store_kernel [fresh_slot, fresh_slot] [])
       = Some [0x04, 0x22, 0x4D, 0x18, 0x60, 0x60, 0x51, 0, 0, 0, 0]
   \<and> trace_of (compress_overlapped store_kernel [fresh_slot, fresh_slot] [])
       = Some [Pack 0, Start 0, Wait 0, Unpack 0]"
  using empty_input [of "[fresh_slot, fresh_slot]" store_kernel] slots_ok_fresh
  by simp





lemma compress_hw_trace_two:
  assumes "slot_ok bufs" and "length D = BRICK_SIZE + 1"
  shows "trace_of (compress_hw kern bufs D)
           = Some [Pack 0, Start 0, Wait 0, Unpack 0, Pack 0, Start 0, Wait 0, Unpack 0]"
proof -
  define b1 where "b1 = run_kernel kern (packed bufs (drop 0 D)) BRICK_SIZE"
  define b2 where "b2 = run_kernel kern (packed b1 (drop BRICK_SIZE D)) 1"
  have ok1: "slot_ok b1" using assms(1) by (simp add: b1_def)
  have s1: "compress_hw_loop kern D 0 bufs LZ4_HEADER []
          = compress_hw_loop kern D BRICK_SIZE b1 (read_slot LZ4_HEADER b1 8)
              [Pack 0, Start 0, Wait 0, Unpack 0]"
    using compress_hw_loop_step [OF assms(1), of 0 D kern LZ4_HEADER "[]"] assms(2)
    by (simp add: code_blocks_full b1_def)
  have s2: "compress_hw_loop kern D BRICK_SIZE b1 (read_slot LZ4_HEADER b1 8)
              [Pack 0, Start 0, Wait 0, Unpack 0]
          = compress_hw_loop kern D (BRICK_SIZE + 1) b2
              (read_slot (read_slot LZ4_HEADER b1 8) b2 1)
              [Pack 0, Start 0, Wait 0, Unpack 0, Pack 0, Start 0, Wait 0, Unpack 0]"
    using compress_hw_loop_step [OF ok1, of BRICK_SIZE D kern "read_slot LZ4_HEADER b1 8"
        "[Pack 0, Start 0, Wait 0, Unpack 0]"] assms(2)
    by (simp add: min_one_BRICK_SIZE code_blocks_1 b2_def)
  show ?thesis
    using assms(2) by (simp add: compress_hw_def s1 s2 compress_hw_loop_done trace_of_def)
qed

text \<open>
  C7. For an input of \<open>BRICK_SIZE + 1\<close> bytes both compressors process exactly two bricks.
  For the second brick, the one-byte window at offset \<open>BRICK_SIZE\<close>,
  \<^verbatim>\<open>write_uncompressed\<close> returns total size 1 and block count 1 and leaves the size array
  at \<open>[1, 0, 0, 0, 0, 0, 0, 0]\<close>; that is the size array of slot 1 when the pipelined run
  ends.
\<close>

theorem brick_plus_one_byte:
  assumes "slots_ok slots" and "slot_ok bufs" and "length D = BRICK_SIZE + 1"
    and "length buffers = BRICK_SIZE" and "length sizes = 8"
  shows "trace_of (compress_overlapped kern slots D)
           = Some [Pack 0, Start 0, Pack 1, Wait 0, Start 1, Unpack 0, Wait 1, Unpack 1]
       \<and> trace_of (compress_hw kern bufs D)
           = Some [Pack 0, Start 0, Wait 0, Unpack 0, Pack 0, Start 0, Wait 0, Unpack 0]
       \<and> write_uncompressed (drop BRICK_SIZE D) buffers sizes
           = Inr (drop BRICK_SIZE D @ drop 1 buffers, 1 # replicate 7 0, 1, 1)
       \<and> map_option (\<lambda>sl. uncompressed_size (sl ! 1)) (buffers_of (compress_overlapped kern slots D))
           = Some (1 # replicate 7 0)"
proof -
  have "write_uncompressed (drop BRICK_SIZE D) buffers sizes
          = Inr (drop BRICK_SIZE D @ drop 1 buffers, 1 # replicate 7 0, 1, 1)"
    using write_uncompressed_eq [OF assms(4,5), of "drop BRICK_SIZE D"] assms(3)
    by (simp add: min_one_BRICK_SIZE code_blocks_1 code_sizes_1)
  with two_bricks_run [OF assms(1,3), of kern] compress_hw_trace_two [OF assms(2,3), of kern]
  show ?thesis by blast
qed

theorem brick_plus_one_byte_witness:
  "slots_ok [fresh_slot, fresh_slot] \<and> slot_ok fresh_slot
   \<and> length (replicate BRICK_SIZE (7 :: byte) @ [5]) = BRICK_SIZE + 1
   \<and> length (replicate BRICK_SIZE (0 :: byte)) = BRICK_SIZE \<and> length (replicate 8 (9 :: u32)) = 8
   \<and> write_uncompressed (drop BRICK_SIZE (replicate BRICK_SIZE 7 @ [5]))
         (replicate BRICK_SIZE 0) (replicate 8 9)
       = Inr (5 # replicate (BRICK_SIZE - 1) 0, 1 # replicate 7 0, 1, 1)
   \<and> trace_of (compress_overlapped store_kernel [fresh_slot, fresh_slot]
         (replicate BRICK_SIZE 7 @ [5]))
       = Some [Pack 0, Start 0, Pack 1, Wait 0, Start 1, Unpack 0, Wait 1, Unpack 1]"
  using brick_plus_one_byte [of "[fresh_slot, fresh_slot]" fresh_slot
      "replicate BRICK_SIZE 7 @ [5]" "replicate BRICK_SIZE 0" "replicate 8 9" store_kernel]
    slots_ok_fresh slot_ok_fresh
  by simp

section \<open>The compressed stream\<close>

text \<open>
  \<open>bricks d\<close> cuts the input into consecutive windows of \<open>BRICK_SIZE\<close> bytes, the last one
  shorter. \<open>brick_blocks kern w\<close> is the list of (compressed size, output row) pairs that
  \<^verbatim>\<open>read_compressed\<close> walks over after one pack and one kernel run for the brick \<open>w\<close> on
  fresh buffers, and \<open>brick_stream kern w\<close> the bytes it writes for them.
\<close>

function bricks :: "byte list \<Rightarrow> byte list list" where
  "bricks d = (if d = [] then [] else take BRICK_SIZE d # bricks (drop BRICK_SIZE d))"
  by pat_completeness auto
termination
  using BRICK_SIZE_pos by (relation "measure length") auto

declare bricks.simps [simp del]

lemma bricks_Nil [simp]: "bricks [] = []"
  by (subst bricks.simps) simp





lemma foldl_append_acc:
  "foldl (\<lambda>st b. st @ f b) stream xs = stream @ concat (map f xs)"
  by (induction xs arbitrary: stream) auto

lemma read_slot_eq:
  "read_slot stream s blocks
     = stream @ concat (map block_record
         (zip (py_slice (compressed_size s) 0 blocks)
              (py_slice (buffer_rows (out_buffers s)) 0 blocks)))"
  by (simp add: read_slot_def read_compressed_def foldl_append_acc)

lemma read_slot_append: "read_slot stream s blocks = stream @ read_slot [] s blocks"
  by (simp add: read_slot_eq)












text \<open>
  On a packed brick in buffers of the allocated shapes, the accelerator keeps the shapes of
  the two arrays it writes, and the compressed size it reports for each block the host
  reads fits into a block of the output buffer. Nothing is asked about the size entries of
  the other blocks.
\<close>

definition kernel_fits :: "kernel \<Rightarrow> bool" where
  "kernel_fits kern \<longleftrightarrow>
     (\<forall>s n.
        n \<le> BRICK_SIZE \<and> slot_ok s \<and> uncompressed_size s = code_sizes n
        \<and> length (out_buffers s) = BRICK_SIZE \<and> length (compressed_size s) = 8
        \<longrightarrow> length (out_buffers (run_kernel kern s n)) = BRICK_SIZE
          \<and> length (compressed_size (run_kernel kern s n)) = 8
          \<and> (\<forall>i < nat (code_blocks n).
                unat (compressed_size (run_kernel kern s n) ! i) \<le> BLOCK_SIZE))"

lemma py_slice_prefix: "0 \<le> n \<Longrightarrow> py_slice xs 0 n = take (nat n) xs"
  by (cases "nat n \<le> length xs") (simp_all add: py_slice_def py_norm_def min_def)

lemma length_buffer_rows [simp]: "length (buffer_rows b) = 8"
  by (simp add: buffer_rows_def)









lemma store_kernel_fits: "kernel_fits store_kernel"
proof -
  have o: "length (out_buffers (run_kernel store_kernel s n)) = BRICK_SIZE" for s n
    by (simp add: run_kernel_def store_kernel_def Let_def length_concat comp_def
        sum_list_triv BRICK_SIZE_def BLOCK_SIZE_def min_def)
  have l: "length (compressed_size (run_kernel store_kernel s n)) = 8" for s n
    by (simp add: run_kernel_def store_kernel_def Let_def)
  have c: "unat c \<le> BLOCK_SIZE"
    if "c \<in> set (compressed_size (run_kernel store_kernel s n))" for c s n
  proof -
    from that obtain m :: nat where "c = of_nat m" "m \<le> 1048576"
      by (auto simp: run_kernel_def store_kernel_def Let_def)
    then show ?thesis
      by (simp add: unat_of_nat BLOCK_SIZE_def)
  qed
  have "unat (compressed_size (run_kernel store_kernel s n) ! i) \<le> BLOCK_SIZE"
    if "n \<le> BRICK_SIZE" and "i < nat (code_blocks n)" for s n i
  proof -
    have "i < length (compressed_size (run_kernel store_kernel s n))"
      using that(2) code_blocks_range [OF that(1)] unfolding l by arith
    then show ?thesis by (rule c [OF nth_mem])
  qed
  with o l show ?thesis
    unfolding kernel_fits_def by blast
qed


















lemma code_blocks_small: "0 < t \<Longrightarrow> t \<le> BLOCK_SIZE \<Longrightarrow> code_blocks t = 1"
  by (auto simp: code_blocks_nat BRICK_SIZE_def BLOCK_SIZE_def)

lemma first_record:
  assumes "cs \<noteq> []"
  shows "read_compressed stream out cs 1
           = stream @ pack_u32_le (hd cs) @ take (unat (hd cs)) (take BLOCK_SIZE out)"
proof -
  have "py_slice cs 0 1 = [hd cs]"
    using assms by (cases cs) (simp_all add: py_slice_prefix)
  moreover have "py_slice (buffer_rows out) 0 1 = [take BLOCK_SIZE out]"
    by (simp add: py_slice_prefix buffer_rows_def take_map upt_conv_Cons)
  ultimately show ?thesis
    by (simp add: read_compressed_def block_record_def)
qed

lemma store_kernel_first:
  "store_kernel inb outb cs us 1024 n
     = (let stored = map (\<lambda>i. take (unat ((us @ replicate 8 0) ! i))
                          (take BLOCK_SIZE (drop (i * BLOCK_SIZE) (take n inb)))) [0..<8]
        in (concat (map (\<lambda>b. b @ replicate (BLOCK_SIZE - length b) 0) stored),
            map (\<lambda>b. of_nat (length b)) stored))"
  by (simp add: store_kernel_def BLOCK_SIZE_def)

lemma store_kernel_one_block:
  fixes u :: u32
  defines "b \<equiv> \<lambda>n inb. take (unat u) (take BLOCK_SIZE (take n inb))"
  shows "read_compressed stream (fst (store_kernel inb outb cs (u # us') 1024 n))
           (snd (store_kernel inb outb cs (u # us') 1024 n)) 1
         = stream @ pack_u32_le (of_nat (length (b n inb))) @ b n inb"
proof -
  have lb: "length (b n inb) \<le> BLOCK_SIZE" by (simp add: b_def)
  then have u: "unat (of_nat (length (b n inb)) :: u32) = length (b n inb)"
    by (simp add: unat_of_nat BLOCK_SIZE_def del: length_take)
  have "\<exists>rest rest2. store_kernel inb outb cs (u # us') 1024 n
          = (concat ((b n inb @ replicate (BLOCK_SIZE - length (b n inb)) 0) # rest),
             of_nat (length (b n inb)) # rest2)"
    unfolding store_kernel_first Let_def b_def
    by (subst (1 2) upt_conv_Cons) (auto simp: min.assoc simp del: length_take)
  then obtain rest rest2 where
    K: "store_kernel inb outb cs (u # us') 1024 n
          = (concat ((b n inb @ replicate (BLOCK_SIZE - length (b n inb)) 0) # rest),
             of_nat (length (b n inb)) # rest2)"
    by blast
  show ?thesis
    unfolding K using lb
    by (simp add: first_record u del: length_take)
qed


text \<open>
  An accelerator honours the size array when what the host reads back depends on the input
  buffer only through the bytes each block is declared to hold: the first
  \<open>uncompressed_size[i]\<close> bytes of block \<open>i\<close>.
\<close>

definition declared_block :: "u32 list \<Rightarrow> byte list \<Rightarrow> nat \<Rightarrow> byte list" where
  "declared_block us inb i =
     take (unat ((us @ replicate 8 0) ! i)) (take BLOCK_SIZE (drop (i * BLOCK_SIZE) inb))"

definition sizes_honoured :: "kernel \<Rightarrow> bool" where
  "sizes_honoured kern \<longleftrightarrow>
     (\<forall>s s' n blocks.
        uncompressed_size s = uncompressed_size s'
        \<and> (\<forall>i < 8. declared_block (uncompressed_size s) (in_buffers s) i
                     = declared_block (uncompressed_size s') (in_buffers s') i)
        \<longrightarrow> read_slot [] (run_kernel kern s n) blocks = read_slot [] (run_kernel kern s' n) blocks)"

lemma store_kernel_block:
  "take (unat u) (take BLOCK_SIZE (drop k (take n inb)))
     = take (n - k) (take (unat u) (take BLOCK_SIZE (drop k inb)))"
  by (simp add: drop_take min.assoc min.commute min.left_commute)

lemma store_kernel_honours_sizes: "sizes_honoured store_kernel"
proof -
  have "store_kernel inb outb cs us 1024 n = store_kernel inb' outb' cs' us 1024 n"
    if "\<forall>i < 8. declared_block us inb i = declared_block us inb' i"
    for inb inb' outb outb' cs cs' us n
  proof -
    have "map (\<lambda>i. take (unat ((us @ replicate 8 0) ! i))
                  (take BLOCK_SIZE (drop (i * BLOCK_SIZE) (take n inb)))) [0..<8]
        = map (\<lambda>i. take (unat ((us @ replicate 8 0) ! i))
                  (take BLOCK_SIZE (drop (i * BLOCK_SIZE) (take n inb')))) [0..<8]"
    proof (rule map_cong [OF refl])
      fix i assume "i \<in> set [0..<8]"
      then have i: "i < 8" by simp
      have "take (unat ((us @ replicate 8 0) ! i))
              (take BLOCK_SIZE (drop (i * BLOCK_SIZE) (take n inb)))
            = take (n - i * BLOCK_SIZE) (declared_block us inb i)"
        unfolding declared_block_def by (rule store_kernel_block)
      also have "\<dots> = take (n - i * BLOCK_SIZE) (declared_block us inb' i)"
        using that i by simp
      also have "\<dots> = take (unat ((us @ replicate 8 0) ! i))
              (take BLOCK_SIZE (drop (i * BLOCK_SIZE) (take n inb')))"
        unfolding declared_block_def by (rule store_kernel_block [symmetric])
      finally show "take (unat ((us @ replicate 8 0) ! i))
              (take BLOCK_SIZE (drop (i * BLOCK_SIZE) (take n inb)))
            = take (unat ((us @ replicate 8 0) ! i))
              (take BLOCK_SIZE (drop (i * BLOCK_SIZE) (take n inb')))" .
    qed
    then show ?thesis
      unfolding store_kernel_first Let_def by (simp only:)
  qed
  note eq = this
  have "read_slot [] (run_kernel store_kernel s n) blocks
          = read_slot [] (run_kernel store_kernel s' n) blocks"
    if u: "uncompressed_size s = uncompressed_size s'"
      and d: "\<forall>i < 8. declared_block (uncompressed_size s) (in_buffers s) i
                     = declared_block (uncompressed_size s') (in_buffers s') i"
    for s s' :: slot and n blocks
  proof -
    have "store_kernel (in_buffers s) (out_buffers s) (compressed_size s) (uncompressed_size s) 1024 n
        = store_kernel (in_buffers s') (out_buffers s') (compressed_size s') (uncompressed_size s) 1024 n"
      using d unfolding u [symmetric] by (rule eq)
    then show ?thesis
      by (simp add: read_slot_def run_kernel_def u split: prod.splits)
  qed
  then show ?thesis
    unfolding sizes_honoured_def by blast
qed


lemma code_blocks_one_block: "code_blocks BLOCK_SIZE = 1"
  by (simp add: code_blocks_nat BRICK_SIZE_def BLOCK_SIZE_def)

lemma code_sizes_one_block: "code_sizes BLOCK_SIZE = replicate 8 0"
proof -
  have "BLOCK_SIZE \<noteq> BRICK_SIZE"
    by (simp add: BRICK_SIZE_def BLOCK_SIZE_def)
  then show ?thesis
    by (intro nth_equalityI) (auto simp: code_sizes_def code_blocks_one_block)
qed

lemma BLOCK_le_BRICK: "BLOCK_SIZE \<le> BRICK_SIZE"
  by (simp add: BRICK_SIZE_def)

lemma declared_block_zero: "i < 8 \<Longrightarrow> declared_block (replicate 8 0) inb i = []"
  by (simp add: declared_block_def nth_append)

lemma full_block_streams_equal:
  assumes "sizes_honoured kern" and "slots_ok slots"
    and "length D = BLOCK_SIZE" and "length D' = BLOCK_SIZE"
  shows "stream_of (compress_overlapped kern slots D) = stream_of (compress_overlapped kern slots D')"
proof -
  let ?s = "packed (slots ! 0) D" and ?s' = "packed (slots ! 0) D'"
  have m: "min BLOCK_SIZE BRICK_SIZE = BLOCK_SIZE" using BLOCK_le_BRICK by simp
  have u: "uncompressed_size ?s = replicate 8 0" "uncompressed_size ?s' = replicate 8 0"
    using assms(3,4) by (simp_all add: uncompressed_size_packed m code_sizes_one_block)
  have "read_slot [] (run_kernel kern ?s BLOCK_SIZE) 1 = read_slot [] (run_kernel kern ?s' BLOCK_SIZE) 1"
    using assms(1) unfolding sizes_honoured_def
    by (auto simp: u declared_block_zero)
  then have "read_slot LZ4_HEADER (run_kernel kern ?s BLOCK_SIZE) 1
           = read_slot LZ4_HEADER (run_kernel kern ?s' BLOCK_SIZE) 1"
    using read_slot_append [of LZ4_HEADER "run_kernel kern ?s BLOCK_SIZE" 1]
      read_slot_append [of LZ4_HEADER "run_kernel kern ?s' BLOCK_SIZE" 1]
    by simp
  then show ?thesis
    using one_brick_run [OF assms(2), of D kern] one_brick_run [OF assms(2), of D' kern]
      assms(3,4) BLOCK_le_BRICK
    by (simp add: stream_of_def code_blocks_one_block)
qed

lemma store_kernel_full_block_stream:
  assumes "slots_ok slots" and "length D = BLOCK_SIZE"
  shows "stream_of (compress_overlapped store_kernel slots D)
           = Some (LZ4_HEADER @ [0, 0, 0, 0] @ [0, 0, 0, 0])"
proof -
  let ?s = "packed (slots ! 0) D"
  have m: "min BLOCK_SIZE BRICK_SIZE = BLOCK_SIZE" using BLOCK_le_BRICK by simp
  have u: "uncompressed_size ?s = 0 # replicate 7 0"
    using assms(2) by (simp add: uncompressed_size_packed m code_sizes_one_block numeral_eq_Suc)
  have "read_slot LZ4_HEADER (run_kernel store_kernel ?s BLOCK_SIZE) 1 = LZ4_HEADER @ [0, 0, 0, 0]"
    using store_kernel_one_block [of LZ4_HEADER "in_buffers ?s" "out_buffers ?s"
        "compressed_size ?s" 0 "replicate 7 0" BLOCK_SIZE]
    by (simp add: read_slot_def run_kernel_def u pack_u32_le_def split_beta)
  then show ?thesis
    using one_brick_run [OF assms(1), of D store_kernel] assms(2) BLOCK_le_BRICK
    by (simp add: stream_of_def code_blocks_one_block)
qed

text \<open>
  C2 fails on inputs of exactly \<open>BLOCK_SIZE\<close> bytes. \<^verbatim>\<open>write_uncompressed\<close> declares the
  one block of such an input empty, so with an accelerator that honours the size array any
  two such inputs give the same stream, and no decompressor returns both.
\<close>

theorem round_trip_fails_on_full_block:
  assumes "sizes_honoured kern" and "slots_ok slots"
    and "length D = BLOCK_SIZE" and "length D' = BLOCK_SIZE" and "D \<noteq> D'"
  shows "stream_of (compress_overlapped kern slots D) = stream_of (compress_overlapped kern slots D')
       \<and> \<not> (\<exists>decompress. decompress (stream_of (compress_overlapped kern slots D)) = D
                          \<and> decompress (stream_of (compress_overlapped kern slots D')) = D')"
  using full_block_streams_equal [OF assms(1-4)] assms(5) by auto

theorem round_trip_fails_on_full_block_witness:
  "sizes_honoured store_kernel \<and> slots_ok [fresh_slot, fresh_slot]
   \<and> length (replicate BLOCK_SIZE (7 :: byte)) = BLOCK_SIZE
   \<and> length (replicate BLOCK_SIZE (8 :: byte)) = BLOCK_SIZE
   \<and> replicate BLOCK_SIZE (7 :: byte) \<noteq> replicate BLOCK_SIZE 8
   \<and> stream_of (compress_overlapped store_kernel [fresh_slot, fresh_slot] (replicate BLOCK_SIZE 7))
       = Some (LZ4_HEADER @ [0, 0, 0, 0] @ [0, 0, 0, 0])
   \<and> stream_of (compress_overlapped store_kernel [fresh_slot, fresh_slot] (replicate BLOCK_SIZE 8))
       = Some (LZ4_HEADER @ [0, 0, 0, 0] @ [0, 0, 0, 0])"
proof -
  have ne: "replicate BLOCK_SIZE (7 :: byte) \<noteq> replicate BLOCK_SIZE 8"
    using BLOCK_SIZE_pos by (simp add: replicate_eq_replicate)
  show ?thesis
    using round_trip_fails_on_full_block [of store_kernel "[fresh_slot, fresh_slot]"
        "replicate BLOCK_SIZE 7" "replicate BLOCK_SIZE 8"]
      store_kernel_honours_sizes slots_ok_fresh ne
      store_kernel_full_block_stream [OF slots_ok_fresh, of "replicate BLOCK_SIZE 7"]
    by simp
qed


section \<open>Claims about \<^verbatim>\<open>write_uncompressed\<close>\<close>

text \<open>
  C10. For a zero-length window \<^verbatim>\<open>write_uncompressed\<close> returns \<open>(0, 0)\<close> and leaves all
  eight size entries at 0. The block count is \<open>((0 - 1) // BLOCK_SIZE) + 1 = 0\<close>, so the first
  assignment is \<^verbatim>\<open>sizes[0:-1] = BLOCK_SIZE\<close> (entries 0 to 6), the second
  \<^verbatim>\<open>sizes[-1] = 0\<close> (entry 7), and the last, \<^verbatim>\<open>sizes[0:8] = 0\<close>, overwrites them all.
\<close>

theorem write_uncompressed_empty_window:
  assumes "length buffers = BRICK_SIZE" and "length sizes = 8"
  shows "write_uncompressed [] buffers sizes = Inr (buffers, replicate 8 0, 0, 0)
         \<and> (int 0 - 1) div int BLOCK_SIZE + 1 = 0
         \<and> slice_fill sizes 0 (0 - 1) v = replicate 7 v @ [sizes ! 7]
         \<and> index_set sizes (0 - 1) w = Inr (sizes[7 := w])"
proof -
  have "code_sizes 0 = replicate 8 0"
    by (intro nth_equalityI) (auto simp: code_sizes_def code_blocks_nat BRICK_SIZE_def BLOCK_SIZE_def)
  moreover have "code_blocks 0 = 0"
    by (simp add: code_blocks_nat BRICK_SIZE_def BLOCK_SIZE_def)
  ultimately have 1: "write_uncompressed [] buffers sizes = Inr (buffers, replicate 8 0, 0, 0)"
    using write_uncompressed_eq [OF assms, of "[]"] by simp
  have 2: "(int 0 - 1) div int BLOCK_SIZE + 1 = 0"
    by (simp add: BLOCK_SIZE_def)
  have 3: "slice_fill sizes 0 (0 - 1) v = replicate 7 v @ [sizes ! 7]"
    using assms(2)
    by (intro nth_equalityI) (auto simp: nth_slice_fill py_norm_def nth_append less_Suc_eq numeral_eq_Suc)
  have 4: "index_set sizes (0 - 1) w = Inr (sizes[7 := w])"
    using assms(2) by (simp add: index_set_def)
  from 1 2 3 4 show ?thesis by blast
qed

theorem write_uncompressed_empty_window_witness:
  "length (replicate BRICK_SIZE (0 :: byte)) = BRICK_SIZE \<and> length (replicate 8 (5 :: u32)) = 8
   \<and> write_uncompressed [] (replicate BRICK_SIZE 0) (replicate 8 5)
       = Inr (replicate BRICK_SIZE 0, replicate 8 0, 0, 0)"
  using write_uncompressed_empty_window [of "replicate BRICK_SIZE 0" "replicate 8 5"]
  by simp

text \<open>
  Where the recorded sizes are right and where they are not. For a window whose length is
  not a multiple of \<open>BLOCK_SIZE\<close>, and for a full brick, every valid block is recorded with
  its byte count. For a partial brick of \<open>k\<close> full blocks the last valid block is recorded
  as empty.
\<close>

lemma nth_code_sizes:
  "i < 8 \<Longrightarrow> code_sizes t ! i =
     (if t = BRICK_SIZE \<or> int i < code_blocks t - 1 then of_nat BLOCK_SIZE
      else if int i = code_blocks t - 1 then of_nat (t mod BLOCK_SIZE) else 0)"
  by (simp add: code_sizes_def)

lemma recorded_sizes_exact_multiple:
  assumes "0 < k" and "k < 8"
  shows "code_blocks (k * BLOCK_SIZE) = int k"
    and "code_sizes (k * BLOCK_SIZE) ! (k - 1) = 0"
proof -
  have ne: "k * BLOCK_SIZE \<noteq> BRICK_SIZE" "k * BLOCK_SIZE \<noteq> 0"
    using assms BLOCK_SIZE_pos by (auto simp: BRICK_SIZE_def)
  define r where "r = BLOCK_SIZE - 1"
  have r: "r < BLOCK_SIZE" using BLOCK_SIZE_pos by (simp add: r_def)
  have "k * BLOCK_SIZE - 1 = (k - 1) * BLOCK_SIZE + r"
    using assms BLOCK_SIZE_pos by (cases k) (simp_all add: algebra_simps r_def)
  then have "(k * BLOCK_SIZE - 1) div BLOCK_SIZE = k - 1"
    using r by simp
  then show b: "code_blocks (k * BLOCK_SIZE) = int k"
    using ne assms by (simp add: code_blocks_nat)
  show "code_sizes (k * BLOCK_SIZE) ! (k - 1) = 0"
    using assms ne by (simp add: nth_code_sizes b of_nat_diff)
qed

lemma recorded_sizes_correct:
  assumes "t \<le> BRICK_SIZE" and "t mod BLOCK_SIZE \<noteq> 0 \<or> t = BRICK_SIZE"
    and "int i < code_blocks t"
  shows "code_sizes t ! i = of_nat (min BLOCK_SIZE (t - i * BLOCK_SIZE))"
proof (cases "t = BRICK_SIZE")
  case True
  then have i: "i < 8" using assms(3) by (simp add: code_blocks_def)
  then have "i * BLOCK_SIZE \<le> 7 * BLOCK_SIZE" by (intro mult_le_mono1) simp
  then have "BLOCK_SIZE \<le> BRICK_SIZE - i * BLOCK_SIZE" unfolding BRICK_SIZE_def by arith
  then show ?thesis using True i by (simp add: nth_code_sizes)
next
  case False
  with assms(2) have m: "t mod BLOCK_SIZE \<noteq> 0" by simp
  have t0: "t \<noteq> 0"
  proof
    assume "t = 0"
    with m show False by simp
  qed
  define q where "q = t div BLOCK_SIZE"
  have t: "t = q * BLOCK_SIZE + t mod BLOCK_SIZE" by (simp add: q_def)
  define r where "r = t mod BLOCK_SIZE - 1"
  have "t - 1 = q * BLOCK_SIZE + r" using m t unfolding r_def by arith
  moreover have "r < BLOCK_SIZE"
    using BLOCK_SIZE_pos by (simp add: less_imp_diff_less r_def)
  ultimately have "(t - 1) div BLOCK_SIZE = q" by simp
  then have b: "code_blocks t = int q + 1" using False t0 by (simp add: code_blocks_nat)
  have i8: "i < 8" using assms(3) code_blocks_range [OF assms(1)] by simp
  from assms(3) b have "i < q \<or> i = q" by auto
  then show ?thesis
  proof
    assume iq: "i < q"
    then have "Suc i * BLOCK_SIZE \<le> q * BLOCK_SIZE" by (intro mult_le_mono1) simp
    then have "BLOCK_SIZE \<le> t - i * BLOCK_SIZE" using t by simp
    then show ?thesis using False iq i8 by (simp add: nth_code_sizes b)
  next
    assume iq: "i = q"
    have "t - q * BLOCK_SIZE = t mod BLOCK_SIZE" using t by arith
    moreover have "t mod BLOCK_SIZE < BLOCK_SIZE" using BLOCK_SIZE_pos by simp
    ultimately show ?thesis using False iq i8 by (simp add: nth_code_sizes b)
  qed
qed

text \<open>
  C3 at a window of exactly \<open>BLOCK_SIZE\<close> bytes: one valid block is returned, holding
  \<open>BLOCK_SIZE\<close> bytes, but its recorded length is \<open>BLOCK_SIZE % BLOCK_SIZE = 0\<close>, where the
  claim's \<open>min(BLOCK_SIZE, copied - 0 * BLOCK_SIZE)\<close> is \<open>BLOCK_SIZE\<close>.
\<close>

theorem last_block_recorded_empty:
  "write_uncompressed (replicate BLOCK_SIZE 7) (replicate BRICK_SIZE 0) (replicate 8 9)
     = Inr (replicate BLOCK_SIZE 7 @ replicate (BRICK_SIZE - BLOCK_SIZE) 0, replicate 8 0, BLOCK_SIZE, 1)
   \<and> (of_nat (min BLOCK_SIZE (BLOCK_SIZE - 0 * BLOCK_SIZE)) :: u32) \<noteq> 0"
proof -
  have b: "code_blocks BLOCK_SIZE = 1"
    by (simp add: code_blocks_nat BRICK_SIZE_def BLOCK_SIZE_def)
  have ne: "BLOCK_SIZE \<noteq> BRICK_SIZE"
    by (simp add: BRICK_SIZE_def BLOCK_SIZE_def)
  have "code_sizes BLOCK_SIZE = replicate 8 0"
    by (intro nth_equalityI) (auto simp: code_sizes_def b ne)
  with b show ?thesis
    using write_uncompressed_eq [of "replicate BRICK_SIZE 0" "replicate 8 9" "replicate BLOCK_SIZE 7"]
    by (simp add: BRICK_SIZE_def) (simp add: BLOCK_SIZE_def)
qed

end
